theory Spec2Isabelle
  imports Main "HOL-Library.List_Lexorder" "HOL-Library.Multiset" "HOL-Library.Word"
    "HOL-Library.Code_Target_Nat"
begin

section \<open>The project-structure generator: data model\<close>

text \<open>
  The script \<^verbatim>\<open>generate_structure.py\<close> walks a directory tree and renders it as
  text. A Python \<^verbatim>\<open>str\<close> is a sequence of Unicode code points, compared
  lexicographically by code point; it is modelled as a list of naturals with the
  lexicographic list order. Lengths therefore count code points, as Python does.
\<close>

type_synonym pystr = "nat list"

text \<open>An ASCII literal of the source, as a Python string.\<close>

definition py :: "string \<Rightarrow> pystr" where
  "py s = map of_char s"

text \<open>
  The exceptions that the operating-system calls of the script can raise, by class,
  each carrying the text that \<^verbatim>\<open>str(e)\<close> gives.
\<close>

datatype exn_class =
  FileNotFoundError | PermissionError | NotADirectoryError | OSError | UnicodeEncodeError

datatype exn = Exn (cls: exn_class) (msg: pystr)

text \<open>
  What the file system shows at an existing path: the answer of
  \<^verbatim>\<open>os.path.isdir\<close>, and the outcome of \<^verbatim>\<open>os.listdir\<close>, which either raises or
  returns the names of the children, in the order the operating system gives them, each
  with what the file system shows at the joined path. A path that does not exist is
  \<open>None\<close>.
\<close>

datatype entry = Entry (isdir: bool) (listing: "exn + (pystr \<times> entry) list")

type_synonym path = "entry option"

text \<open>A regular file, a readable directory, and a directory whose listing raises.\<close>

definition File :: entry where
  "File = Entry False (Inl (Exn NotADirectoryError (py ''Not a directory'')))"

definition Dir :: "(pystr \<times> entry) list \<Rightarrow> entry" where
  "Dir cs = Entry True (Inr cs)"


definition os_listdir :: "path \<Rightarrow> exn + pystr list" where
  "os_listdir p =
     (case p of
        None \<Rightarrow> Inl (Exn FileNotFoundError (py ''No such file or directory''))
      | Some d \<Rightarrow> (case listing d of Inl e \<Rightarrow> Inl e | Inr cs \<Rightarrow> Inr (map fst cs)))"

definition os_path_join :: "path \<Rightarrow> pystr \<Rightarrow> path" where
  "os_path_join p item =
     (case p of
        None \<Rightarrow> None
      | Some d \<Rightarrow> (case listing d of Inl e \<Rightarrow> None | Inr cs \<Rightarrow> map_of cs item))"

definition os_path_isdir :: "path \<Rightarrow> bool" where
  "os_path_isdir p = (case p of None \<Rightarrow> False | Some d \<Rightarrow> isdir d)"

text \<open>\<^verbatim>\<open>posixpath.basename\<close>: everything after the last slash.\<close>

definition os_path_basename :: "pystr \<Rightarrow> pystr" where
  "os_path_basename p = rev (takeWhile (\<lambda>c. c \<noteq> 0x2F) (rev p))"

text \<open>
  A directory argument: the path string itself, the outcome of \<^verbatim>\<open>os.path.abspath\<close>
  on it, and what the file system shows there. \<^verbatim>\<open>os.path.abspath\<close> returns the
  absolute path; on a relative path it asks for the working directory first, and
  raises when that directory is gone.
\<close>

record dir_ref =
  path_str :: pystr
  abspath :: "exn + pystr"
  resolved :: path

section \<open>Configuration\<close>

definition IGNORE_LIST :: "pystr set" where
  "IGNORE_LIST = {py ''.git'', py ''.vscode'', py ''__pycache__'', py ''.idea'',
     py ''node_modules'', py ''build'', py ''dist'', py ''.DS_Store'', py ''venv'',
     py ''.env'', py ''generate_structure.py'', py ''project_structure.txt''}"

definition OUTPUT_FILENAME :: pystr where
  "OUTPUT_FILENAME = py ''project_structure.txt''"

section \<open>Script logic\<close>

text \<open>
  The four string literals of \<^verbatim>\<open>walk_dir\<close>: the branch pointer (U+251C U+2500 U+2500
  and a space), the last-item pointer (U+2514 U+2500 U+2500 and a space), the
  continuation bar (U+2502 and three spaces) and four spaces.
\<close>

definition tee :: pystr where
  "tee = [0x251C, 0x2500, 0x2500, 0x20]"

definition corner :: pystr where
  "corner = [0x2514, 0x2500, 0x2500, 0x20]"

definition bar_ext :: pystr where
  "bar_ext = [0x2502, 0x20, 0x20, 0x20]"

definition blank_ext :: pystr where
  "blank_ext = [0x20, 0x20, 0x20, 0x20]"

text \<open>Python's \<^verbatim>\<open>xs * n\<close> on a list: the empty list when \<open>n\<close> is zero or negative.\<close>

definition list_repeat :: "'a list \<Rightarrow> int \<Rightarrow> 'a list" where
  "list_repeat xs n = (if n \<le> 0 then [] else concat (replicate (nat n) xs))"

text \<open>\<^verbatim>\<open>sep.join(xs)\<close>.\<close>

fun str_join :: "pystr \<Rightarrow> pystr list \<Rightarrow> pystr" where
  "str_join sep [] = []"
| "str_join sep [x] = x"
| "str_join sep (x # y # ys) = x @ sep @ str_join sep (y # ys)"

definition psize :: "path \<Rightarrow> nat" where
  "psize p = (case p of None \<Rightarrow> 0 | Some d \<Rightarrow> size d)"

lemma size_child:
  assumes "os_path_isdir (os_path_join p item)"
  shows "psize (os_path_join p item) < psize p"
proof -
  have aux: "(n, c) \<in> set cs \<Longrightarrow> size c < Suc (size_list (size_prod (\<lambda>x. 0) size) cs)"
    for n :: pystr and c :: entry and cs
    by (induction cs) auto
  from assms obtain c where c: "os_path_join p item = Some c"
    by (auto simp: os_path_isdir_def split: option.splits)
  then obtain d cs where d: "p = Some d" "listing d = Inr cs" "map_of cs item = Some c"
    by (auto simp: os_path_join_def split: option.splits sum.splits)
  from d(3) have "(item, c) \<in> set cs"
    by (rule map_of_SomeD)
  then have "size c < Suc (size_list (size_prod (\<lambda>x. 0) size) cs)"
    by (rule aux)
  with d(1,2) c show ?thesis
    by (cases d) (simp add: psize_def)
qed

text \<open>
  \<^verbatim>\<open>walk_dir\<close> appends to the list \<^verbatim>\<open>tree_lines\<close> of the enclosing call; the model
  passes the list in and returns it updated. An exception other than
  \<^verbatim>\<open>FileNotFoundError\<close> leaves \<^verbatim>\<open>walk_dir\<close>, and every enclosing call, as \<open>Inl\<close>.
  \<open>walk_items\<close> is the \<^verbatim>\<open>for\<close> loop over \<^verbatim>\<open>zip(pointers, items)\<close>. The recursion
  is as deep as the directory tree; the recursion limit of the interpreter is not part
  of the model.
\<close>

function walk_dir :: "path \<Rightarrow> pystr \<Rightarrow> pystr list \<Rightarrow> exn + pystr list"
  and walk_items ::
    "path \<Rightarrow> pystr \<Rightarrow> (pystr \<times> pystr) list \<Rightarrow> pystr list \<Rightarrow> exn + pystr list"
where
  "walk_dir current_dir prefix tree_lines =
     (case os_listdir current_dir of
        Inl e \<Rightarrow> if cls e = FileNotFoundError then Inr tree_lines else Inl e
      | Inr names \<Rightarrow>
          let items = sort (filter (\<lambda>item. item \<notin> IGNORE_LIST) names);
              pointers = list_repeat [tee] (int (length items) - 1) @ [corner]
          in walk_items current_dir prefix (zip pointers items) tree_lines)"
| "walk_items current_dir prefix [] tree_lines = Inr tree_lines"
| "walk_items current_dir prefix ((pointer, item) # rest) tree_lines =
     (let path = os_path_join current_dir item;
          tree_lines1 = tree_lines @ [prefix @ pointer @ item]
      in if os_path_isdir path
         then (let extension = (if pointer = tee then bar_ext else blank_ext)
               in case walk_dir path (prefix @ extension) tree_lines1 of
                    Inl e \<Rightarrow> Inl e
                  | Inr tree_lines2 \<Rightarrow> walk_items current_dir prefix rest tree_lines2)
         else walk_items current_dir prefix rest tree_lines1)"
  by pat_completeness auto
termination
  by (relation "measures
        [\<lambda>x. case x of Inl (d, _, _) \<Rightarrow> 2 * psize d + 1 | Inr (d, _, _, _) \<Rightarrow> 2 * psize d,
         \<lambda>x. case x of Inl _ \<Rightarrow> 0 | Inr (_, _, zs, _) \<Rightarrow> length zs]")
     (auto dest: size_child)

definition generate_tree :: "dir_ref \<Rightarrow> exn + pystr" where
  "generate_tree root_dir =
     (let tree_lines = []
      in case abspath root_dir of
           Inl e \<Rightarrow> Inl e
         | Inr absolute \<Rightarrow>
             (let project_name = os_path_basename absolute;
                  tree_lines = tree_lines @ [project_name @ py ''/'']
              in case walk_dir (resolved root_dir) [] tree_lines of
                   Inl e \<Rightarrow> Inl e
                 | Inr tree_lines \<Rightarrow> Inr (str_join (py [CHR 0x0A]) tree_lines)))"

section \<open>The driver\<close>

text \<open>
  The file is opened with \<^verbatim>\<open>encoding="utf-8"\<close>: what reaches the disk is the UTF-8
  encoding of the text. The codec refuses surrogates, as Python's strict error handler
  does, and values beyond U+10FFFF are no code points.
\<close>

type_synonym byte = "8 word"

definition utf8_char :: "nat \<Rightarrow> byte list option" where
  "utf8_char c =
     (if c < 0x80 then Some [of_nat c]
      else if c < 0x800 then Some [of_nat (0xC0 + c div 0x40), of_nat (0x80 + c mod 0x40)]
      else if 0xD800 \<le> c \<and> c \<le> 0xDFFF then None
      else if c < 0x10000 then
        Some [of_nat (0xE0 + c div 0x1000), of_nat (0x80 + c div 0x40 mod 0x40),
              of_nat (0x80 + c mod 0x40)]
      else if c < 0x110000 then
        Some [of_nat (0xF0 + c div 0x40000), of_nat (0x80 + c div 0x1000 mod 0x40),
              of_nat (0x80 + c div 0x40 mod 0x40), of_nat (0x80 + c mod 0x40)]
      else None)"

fun utf8_encode :: "pystr \<Rightarrow> byte list option" where
  "utf8_encode [] = Some []"
| "utf8_encode (c # cs) =
     (case utf8_char c of
        None \<Rightarrow> None
      | Some bs \<Rightarrow> (case utf8_encode cs of None \<Rightarrow> None | Some rest \<Rightarrow> Some (bs @ rest)))"

text \<open>
  The world the driver runs in: the current working directory, the contents of the
  files in it by name, the error (if any) that opening the output file for writing
  raises, and the texts printed so far, one per call of \<^verbatim>\<open>print\<close>. The driver is
  modelled from the moment \<^verbatim>\<open>os.getcwd\<close> has returned. Line endings are written as
  they are (\<^verbatim>\<open>os.linesep\<close> is the newline), and printing does not fail.
\<close>

record world =
  getcwd :: dir_ref
  files :: "pystr \<rightharpoonup> byte list"
  open_error :: "exn option"
  stdout :: "pystr list"

definition print :: "pystr \<Rightarrow> world \<Rightarrow> world" where
  "print s w = w\<lparr>stdout := stdout w @ [s]\<rparr>"

text \<open>\<^verbatim>\<open>open(name, "w", encoding="utf-8")\<close> creates the file or truncates it.\<close>

definition open_w :: "pystr \<Rightarrow> world \<Rightarrow> exn + world" where
  "open_w name w =
     (case open_error w of
        Some e \<Rightarrow> Inl e
      | None \<Rightarrow> Inr (w\<lparr>files := (files w)(name \<mapsto> [])\<rparr>))"

text \<open>\<^verbatim>\<open>f.write(text)\<close> followed by the close at the end of the \<^verbatim>\<open>with\<close> block.\<close>

definition write_close :: "pystr \<Rightarrow> pystr \<Rightarrow> world \<Rightarrow> exn + world" where
  "write_close name text w =
     (case utf8_encode text of
        None \<Rightarrow> Inl (Exn UnicodeEncodeError (py ''surrogates not allowed''))
      | Some bs \<Rightarrow> Inr (w\<lparr>files := (files w)(name \<mapsto> bs)\<rparr>))"

definition scanning_msg :: "pystr \<Rightarrow> pystr" where
  "scanning_msg name =
     [0x1F50D] @ py ''  Scanning project structure for '' @ [0x27] @ name @ [0x27] @ py ''...''"

definition success_msg :: pystr where
  "success_msg =
     [0x2705] @ py ''  Success! Project structure saved to '' @ [0x27] @ OUTPUT_FILENAME @ [0x27]"

definition preview_msg :: pystr where
  "preview_msg = py [CHR 0x0A] @ py ''--- File Preview ---''"

definition footer_msg :: pystr where
  "footer_msg = py ''--------------------''"

definition error_msg :: "exn \<Rightarrow> pystr" where
  "error_msg e = [0x274C] @ py ''  An error occurred: '' @ msg e"

text \<open>
  The body of the \<^verbatim>\<open>try\<close> block: \<open>Inl\<close> is the exception that leaves it, with the
  world as it is at that moment.
\<close>

definition try_body :: "dir_ref \<Rightarrow> world \<Rightarrow> (exn \<times> world) + world" where
  "try_body project_root w =
     (case generate_tree project_root of
        Inl e \<Rightarrow> Inl (e, w)
      | Inr project_tree \<Rightarrow>
          (case open_w OUTPUT_FILENAME w of
             Inl e \<Rightarrow> Inl (e, w)
           | Inr w1 \<Rightarrow>
               (case write_close OUTPUT_FILENAME project_tree w1 of
                  Inl e \<Rightarrow> Inl (e, w1)
                | Inr w2 \<Rightarrow>
                    Inr (print footer_msg (print project_tree
                           (print preview_msg (print success_msg w2)))))))"

definition main :: "world \<Rightarrow> world" where
  "main w =
     (let project_root = getcwd w;
          w0 = print (scanning_msg (os_path_basename (path_str project_root))) w
      in case try_body project_root w0 of
           Inl (e, w1) \<Rightarrow> print (error_msg e) w1
         | Inr w1 \<Rightarrow> w1)"

section \<open>Notions used to state the properties\<close>

text \<open>
  The defining equation of \<open>walk_dir\<close> is unfolded by hand where it is needed.
\<close>

declare walk_dir.simps [simp del]

text \<open>
  What one pass of the loop body does below the line of \<open>item\<close>: the recursive call
  on an empty list when the joined path is a directory, nothing otherwise; and the
  lines it adds.
\<close>

definition child_walk :: "path \<Rightarrow> pystr \<Rightarrow> pystr \<Rightarrow> pystr \<Rightarrow> exn + pystr list" where
  "child_walk d prefix pointer item =
     (if os_path_isdir (os_path_join d item)
      then walk_dir (os_path_join d item)
             (prefix @ (if pointer = tee then bar_ext else blank_ext)) []
      else Inr [])"

definition child_lines :: "path \<Rightarrow> pystr \<Rightarrow> pystr \<Rightarrow> pystr \<Rightarrow> pystr list" where
  "child_lines d prefix pointer item =
     (case child_walk d prefix pointer item of Inl e \<Rightarrow> [] | Inr ls \<Rightarrow> ls)"

text \<open>The list \<^verbatim>\<open>items\<close> of \<open>walk_dir\<close>, and the pointer of its \<open>i\<close>-th element.\<close>

definition visible_items :: "pystr list \<Rightarrow> pystr list" where
  "visible_items names = sort (filter (\<lambda>item. item \<notin> IGNORE_LIST) names)"

definition pointer_at :: "nat \<Rightarrow> nat \<Rightarrow> pystr" where
  "pointer_at n i = (if Suc i = n then corner else tee)"

text \<open>
  The entries below a directory that recursive descent reaches, each as the list of
  names leading to it: every name of a listing, and below it what is reached through
  it when it is a directory. A directory that cannot be listed has none.
\<close>

function reachable :: "path \<Rightarrow> pystr list list" where
  "reachable d =
     (case os_listdir d of
        Inl e \<Rightarrow> []
      | Inr names \<Rightarrow>
          concat (map (\<lambda>name.
            [name] #
            (if os_path_isdir (os_path_join d name)
             then map ((#) name) (reachable (os_path_join d name))
             else []))
          names))"
  by pat_completeness auto
termination
  by (relation "measure psize") (auto dest: size_child)

declare reachable.simps [simp del]

text \<open>The reachable entries none of whose names, on the way or its own, is ignored.\<close>

definition shown_paths :: "path \<Rightarrow> pystr list list" where
  "shown_paths d = filter (\<lambda>p. \<forall>name\<in>set p. name \<notin> IGNORE_LIST) (reachable d)"

text \<open>Every directory that recursive descent reaches can be listed.\<close>

function all_listable :: "path \<Rightarrow> bool" where
  "all_listable d =
     (case os_listdir d of
        Inl e \<Rightarrow> False
      | Inr names \<Rightarrow>
          (\<forall>name\<in>set names.
             os_path_isdir (os_path_join d name) \<longrightarrow> all_listable (os_path_join d name)))"
  by pat_completeness auto
termination
  by (relation "measure psize") (auto dest: size_child)

declare all_listable.simps [simp del]


subsection \<open>The rendering as the specification describes it\<close>

text \<open>
  The specification describes the output as one line per
  entry, in depth-first order, the children of a directory filtered and sorted, each
  line made of the indentation accumulated from the ancestors, a pointer that tells
  whether the entry is the last of its directory, and the name. A row records, for an
  entry, whether each ancestor directory below the root was a non-last child (outermost
  first), whether the entry is the last child, and the names from the root to it.
  \<open>spec_rows\<close> lists the rows of a directory by position in the sorted list, and
  \<open>render_row\<close> is the line of a row. They are compared with \<open>walk_dir\<close> below.
\<close>

datatype row = Row (ancestors_nonlast: "bool list") (is_last: bool) (rpath: "pystr list")

definition indent :: "bool list \<Rightarrow> pystr" where
  "indent flags = concat (map (\<lambda>nonlast. if nonlast then bar_ext else blank_ext) flags)"

definition render_row :: "row \<Rightarrow> pystr" where
  "render_row r =
     indent (ancestors_nonlast r) @ (if is_last r then corner else tee) @ last (rpath r)"

function spec_rows :: "path \<Rightarrow> bool list \<Rightarrow> pystr list \<Rightarrow> row list" where
  "spec_rows d flags anc =
     (case os_listdir d of
        Inl e \<Rightarrow> []
      | Inr names \<Rightarrow>
          (let items = sort (filter (\<lambda>item. item \<notin> IGNORE_LIST) names)
           in concat (map (\<lambda>i.
                Row flags (Suc i = length items) (anc @ [items ! i]) #
                (if os_path_isdir (os_path_join d (items ! i))
                 then spec_rows (os_path_join d (items ! i))
                        (flags @ [Suc i \<noteq> length items]) (anc @ [items ! i])
                 else []))
              [0..<length items])))"
  by pat_completeness auto
termination
  by (relation "measure (\<lambda>(d, flags, anc). psize d)") (auto dest: size_child)

declare spec_rows.simps [simp del]

section \<open>Example file systems\<close>

text \<open>
  A root holding \<^verbatim>\<open>b.txt\<close>, \<^verbatim>\<open>a.txt\<close> and a directory \<^verbatim>\<open>sub\<close> with \<^verbatim>\<open>c.txt\<close>; a
  directory with ignored children only; a root that is gone when it is listed.
\<close>

definition example_root :: entry where
  "example_root =
     Dir [(py ''b.txt'', File), (py ''a.txt'', File), (py ''sub'', Dir [(py ''c.txt'', File)])]"

definition ignored_only_dir :: entry where
  "ignored_only_dir = Dir [(py ''.git'', Dir [(py ''config'', File)]), (py ''venv'', File)]"








definition example_world :: world where
  "example_world =
     \<lparr>getcwd = \<lparr>path_str = py ''/home/u/root'', abspath = Inr (py ''/home/u/root''),
                  resolved = Some example_root\<rparr>,
      files = [OUTPUT_FILENAME \<mapsto> [0x6F, 0x6C, 0x64], py ''notes.md'' \<mapsto> [0x68, 0x69]],
      open_error = None, stdout = []\<rparr>"

definition example_bytes :: "byte list" where
  "example_bytes =
     [114, 111, 111, 116, 47, 10, 226, 148, 156, 226, 148, 128, 226, 148, 128,
      32, 97, 46, 116, 120, 116, 10, 226, 148, 156, 226, 148, 128, 226, 148,
      128, 32, 98, 46, 116, 120, 116, 10, 226, 148, 148, 226, 148, 128, 226,
      148, 128, 32, 115, 117, 98, 10, 32, 32, 32, 32, 226, 148, 148, 226, 148,
      128, 226, 148, 128, 32, 99, 46, 116, 120, 116]"









text \<open>
  A root with ignored names at two depths, beside names that differ from ignored ones
  in case or by one letter; and a root nested three levels deep, with a directory that
  is not the last child.
\<close>

definition ignoring_dir :: entry where
  "ignoring_dir =
     Dir [(py ''src'', Dir [(py ''main.py'', File), (py ''dist'', Dir [(py ''x.js'', File)])]),
          (py ''.git'', Dir [(py ''config'', File)]),
          (py ''.GIT'', File),
          (py ''builds'', File),
          (py ''build'', Dir [(py ''out.o'', File)])]"

definition ignoring_root :: dir_ref where
  "ignoring_root = \<lparr>path_str = py ''/home/u/root'', abspath = Inr (py ''/home/u/root''),
     resolved = Some ignoring_dir\<rparr>"

definition nested_dir :: entry where
  "nested_dir =
     Dir [(py ''e.txt'', File),
          (py ''a'', Dir [(py ''d.txt'', File), (py ''b'', Dir [(py ''c.txt'', File)])])]"

definition nested_root :: dir_ref where
  "nested_root = \<lparr>path_str = py ''/home/u/root'', abspath = Inr (py ''/home/u/root''),
     resolved = Some nested_dir\<rparr>"


section \<open>The accumulated list and the loop\<close>

lemma walk_items_acc_aux:
  assumes IH: "\<And>item p acc. os_path_isdir (os_path_join d item) \<Longrightarrow>
     walk_dir (os_path_join d item) p acc
       = map_sum id ((@) acc) (walk_dir (os_path_join d item) p [])"
  shows "walk_items d p zs acc = map_sum id ((@) acc) (walk_items d p zs [])"
proof (induction zs arbitrary: acc)
  case Nil
  show ?case by simp
next
  case (Cons z zs)
  obtain pointer item where z: "z = (pointer, item)" by (cases z)
  let ?l = "p @ pointer @ item"
  let ?c = "os_path_join d item"
  let ?e = "p @ (if pointer = tee then bar_ext else blank_ext)"
  show ?case
  proof (cases "os_path_isdir ?c")
    case False
    then show ?thesis
      using Cons.IH [of "acc @ [?l]"] Cons.IH [of "[?l]"]
      by (cases "walk_items d p zs []") (simp_all add: z)
  next
    case True
    have a: "walk_dir ?c ?e (acc @ [?l]) = map_sum id ((@) (acc @ [?l])) (walk_dir ?c ?e [])"
      using IH [OF True] .
    have b: "walk_dir ?c ?e [?l] = map_sum id ((@) [?l]) (walk_dir ?c ?e [])"
      using IH [OF True] .
    show ?thesis
    proof (cases "walk_dir ?c ?e []")
      case (Inl e)
      with True a b show ?thesis by (simp add: z Let_def)
    next
      case (Inr ls)
      with True a b Cons.IH [of "acc @ ?l # ls"] Cons.IH [of "?l # ls"] show ?thesis
        by (cases "walk_items d p zs []") (simp_all add: z Let_def)
    qed
  qed
qed

lemma walk_dir_acc:
  "walk_dir d p acc = map_sum id ((@) acc) (walk_dir d p [])"
proof (induction "psize d" arbitrary: d p acc rule: less_induct)
  case less
  have items: "walk_items d p zs acc = map_sum id ((@) acc) (walk_items d p zs [])" for zs acc
    by (rule walk_items_acc_aux) (rule less, rule size_child)
  show ?case
    by (subst (1 2) walk_dir.simps) (auto split: sum.splits simp: Let_def items [of _ acc])
qed

lemma walk_items_acc:
  "walk_items d p zs acc = map_sum id ((@) acc) (walk_items d p zs [])"
  by (rule walk_items_acc_aux) (rule walk_dir_acc)


lemma pointers_replicate:
  "list_repeat [x] (int (length items) - 1) @ [y] = replicate (length items - 1) x @ [y]"
  by (cases items) (simp_all add: list_repeat_def)

lemma zip_pointers:
  "zip (list_repeat [tee] (int (length items) - 1) @ [corner]) items
     = map (\<lambda>i. (pointer_at (length items) i, items ! i)) [0..<length items]"
proof (cases items)
  case Nil
  then show ?thesis by simp
next
  case (Cons a as)
  show ?thesis
    unfolding pointers_replicate
  proof (rule nth_equalityI)
    show "length (zip (replicate (length items - 1) tee @ [corner]) items)
            = length (map (\<lambda>i. (pointer_at (length items) i, items ! i)) [0..<length items])"
      by (simp add: Cons)
  next
    fix i
    assume "i < length (zip (replicate (length items - 1) tee @ [corner]) items)"
    then have i: "i < length items" by simp
    then show "zip (replicate (length items - 1) tee @ [corner]) items ! i
                 = map (\<lambda>i. (pointer_at (length items) i, items ! i)) [0..<length items] ! i"
      by (auto simp: Cons nth_append pointer_at_def less_Suc_eq)
  qed
qed

lemma walk_items_blocks:
  assumes "walk_items d prefix zs acc = Inr out"
  shows "out = acc @ concat (map (\<lambda>(pointer, item).
            (prefix @ pointer @ item) # child_lines d prefix pointer item) zs)"
  using assms
proof (induction zs arbitrary: acc out)
  case Nil
  then show ?case by simp
next
  case (Cons z zs)
  obtain pointer item where z: "z = (pointer, item)" by (cases z)
  let ?l = "prefix @ pointer @ item"
  show ?case
  proof (cases "os_path_isdir (os_path_join d item)")
    case False
    with Cons.prems have "walk_items d prefix zs (acc @ [?l]) = Inr out"
      by (simp add: z)
    from Cons.IH [OF this] False show ?thesis
      by (simp add: z child_lines_def child_walk_def)
  next
    case True
    with Cons.prems obtain ls where
      ls: "walk_dir (os_path_join d item)
             (prefix @ (if pointer = tee then bar_ext else blank_ext)) (acc @ [?l]) = Inr ls"
      and rest: "walk_items d prefix zs ls = Inr out"
      by (auto simp: z Let_def split: sum.splits)
    from ls obtain sub where
      sub: "walk_dir (os_path_join d item)
              (prefix @ (if pointer = tee then bar_ext else blank_ext)) [] = Inr sub"
      and ls_eq: "ls = (acc @ [?l]) @ sub"
      by (subst (asm) walk_dir_acc) (auto simp: map_sum_def split: sum.splits)
    from sub True have "child_lines d prefix pointer item = sub"
      by (simp add: child_lines_def child_walk_def)
    with Cons.IH [OF rest] ls_eq show ?thesis
      by (simp add: z)
  qed
qed

lemma walk_dir_blocks:
  assumes "walk_dir d prefix acc = Inr out" and "os_listdir d = Inr names"
  shows "out = acc @ concat (map (\<lambda>i.
            (prefix @ pointer_at (length (visible_items names)) i @ visible_items names ! i)
              # child_lines d prefix (pointer_at (length (visible_items names)) i)
                  (visible_items names ! i))
          [0..<length (visible_items names)])"
proof -
  from assms have "walk_items d prefix
      (map (\<lambda>i. (pointer_at (length (visible_items names)) i, visible_items names ! i))
         [0..<length (visible_items names)]) acc = Inr out"
    by (subst (asm) walk_dir.simps) (simp add: Let_def zip_pointers visible_items_def)
  from walk_items_blocks [OF this] show ?thesis
    by (simp add: comp_def)
qed


lemma walk_dir_raises:
  assumes "os_listdir d = Inl e" and "cls e \<noteq> FileNotFoundError"
  shows "walk_dir d prefix acc = Inl e"
  using assms by (subst walk_dir.simps) simp


lemma utf8_encode_append:
  "utf8_encode (xs @ ys) =
     (case utf8_encode xs of
        None \<Rightarrow> None
      | Some a \<Rightarrow> (case utf8_encode ys of None \<Rightarrow> None | Some b \<Rightarrow> Some (a @ b)))"
  by (induction xs) (auto split: option.splits)

lemma str_join_last:
  "ls \<noteq> [] \<Longrightarrow> \<exists>pre. str_join sep ls = pre @ last ls"
  by (induction sep ls rule: str_join.induct) auto

lemma generate_tree_lines:
  "generate_tree root_dir =
     (case abspath root_dir of
        Inl e \<Rightarrow> Inl e
      | Inr absolute \<Rightarrow>
          (case walk_dir (resolved root_dir) [] [] of
             Inl e \<Rightarrow> Inl e
           | Inr ls \<Rightarrow> Inr (str_join (py [CHR 0x0A])
                             ((os_path_basename absolute @ py ''/'') # ls))))"
proof (cases "abspath root_dir")
  case (Inl e)
  then show ?thesis by (simp add: generate_tree_def)
next
  case (Inr absolute)
  let ?h = "os_path_basename absolute @ py ''/''"
  have "walk_dir (resolved root_dir) [] [?h]
          = map_sum id ((@) [?h]) (walk_dir (resolved root_dir) [] [])"
    by (rule walk_dir_acc)
  with Inr show ?thesis
    by (cases "walk_dir (resolved root_dir) [] []") (simp_all add: generate_tree_def)
qed

lemma main_success:
  assumes "generate_tree (getcwd w) = Inr t" and "open_error w = None"
    and "utf8_encode t = Some bs"
  shows "main w = w\<lparr>files := (files w)(OUTPUT_FILENAME \<mapsto> bs),
                     stdout := stdout w @ [scanning_msg (os_path_basename (path_str (getcwd w))),
                                success_msg, preview_msg, t, footer_msg]\<rparr>"
  using assms by (simp add: main_def try_body_def open_w_def write_close_def print_def Let_def)

lemma main_failure:
  assumes "generate_tree (getcwd w) = Inl e \<or> open_error w \<noteq> None
     \<or> (\<exists>t. generate_tree (getcwd w) = Inr t \<and> utf8_encode t = None)"
  shows "\<exists>e'. stdout (main w) = stdout w @ [scanning_msg (os_path_basename (path_str (getcwd w))), error_msg e']"
  using assms
  by (auto simp: main_def try_body_def open_w_def write_close_def print_def Let_def
           split: sum.splits option.splits)





lemma utf8_encode_surrogate:
  "utf8_encode (xs @ 0xDCFF # ys) = None"
  by (induction xs) (auto simp: utf8_char_def split: option.splits)

lemma basename_slash:
  "\<forall>c\<in>set n. c \<noteq> 0x2F \<Longrightarrow> os_path_basename (parent @ py ''/'' @ n) = n"
  by (simp add: os_path_basename_def py_def) (subst takeWhile_append2, auto)

lemma success_not_scanning: "success_msg \<noteq> scanning_msg n"
  by (simp add: success_msg_def scanning_msg_def)

lemma success_not_error: "success_msg \<noteq> error_msg e"
  by (simp add: success_msg_def error_msg_def)

lemma main_success_iff:
  "success_msg \<in> set (drop (length (stdout w)) (stdout (main w))) \<longleftrightarrow>
     (\<exists>t bs. generate_tree (getcwd w) = Inr t \<and> open_error w = None \<and> utf8_encode t = Some bs)"
proof (cases "\<exists>t bs. generate_tree (getcwd w) = Inr t \<and> open_error w = None \<and> utf8_encode t = Some bs")
  case True
  then obtain t bs where "generate_tree (getcwd w) = Inr t" "open_error w = None"
    "utf8_encode t = Some bs" by blast
  from main_success [OF this] True show ?thesis by simp
next
  case False
  then have "generate_tree (getcwd w) = Inl (projl (generate_tree (getcwd w))) \<or> open_error w \<noteq> None
     \<or> (\<exists>t. generate_tree (getcwd w) = Inr t \<and> utf8_encode t = None)"
    by (cases "generate_tree (getcwd w)") auto
  then have "\<exists>e'. stdout (main w) = stdout w @
      [scanning_msg (os_path_basename (path_str (getcwd w))), error_msg e']"
    by (intro main_failure) blast
  with False show ?thesis
    by (auto simp: success_not_scanning success_not_error)
qed

lemma walk_example_root:
  "walk_dir (Some example_root) [] [] =
      Inr [[0x251C, 0x2500, 0x2500, 0x20] @ py ''a.txt'',
          [0x251C, 0x2500, 0x2500, 0x20] @ py ''b.txt'',
          [0x2514, 0x2500, 0x2500, 0x20] @ py ''sub'',
          py ''    '' @ [0x2514, 0x2500, 0x2500, 0x20] @ py ''c.txt'']"
  by code_simp

lemma basename_home_root: "os_path_basename (py ''/home/u/root'') = py ''root''"
  using basename_slash [of "py ''root''" "py ''/home/u''"] by (simp add: py_def)

lemma encode_example:
  "utf8_encode (str_join (py [CHR 0x0A])
         [py ''root/'',
          [0x251C, 0x2500, 0x2500, 0x20] @ py ''a.txt'',
          [0x251C, 0x2500, 0x2500, 0x20] @ py ''b.txt'',
          [0x2514, 0x2500, 0x2500, 0x20] @ py ''sub'',
          py ''    '' @ [0x2514, 0x2500, 0x2500, 0x20] @ py ''c.txt'']) = Some example_bytes"
  by (simp add: py_def utf8_char_def example_bytes_def)

section \<open>The walk and the rows of the specification\<close>

lemma walk_items_children:
  assumes "walk_items d prefix zs acc = Inr out" and "(pointer, item) \<in> set zs"
  shows "\<exists>sub. child_walk d prefix pointer item = Inr sub"
  using assms
proof (induction zs arbitrary: acc)
  case Nil
  then show ?case by simp
next
  case (Cons z zs)
  obtain p i where z: "z = (p, i)" by (cases z)
  show ?case
  proof (cases "os_path_isdir (os_path_join d i)")
    case False
    with Cons.prems(1) have rest: "walk_items d prefix zs (acc @ [prefix @ p @ i]) = Inr out"
      by (simp add: z)
    show ?thesis
    proof (cases "(pointer, item) = (p, i)")
      case True
      with False show ?thesis by (simp add: child_walk_def)
    next
      case no: False
      with Cons.prems(2) have "(pointer, item) \<in> set zs" by (auto simp: z)
      from Cons.IH [OF rest this] show ?thesis .
    qed
  next
    case True
    with Cons.prems(1) obtain ls where
      ls: "walk_dir (os_path_join d i)
             (prefix @ (if p = tee then bar_ext else blank_ext)) (acc @ [prefix @ p @ i]) = Inr ls"
      and rest: "walk_items d prefix zs ls = Inr out"
      by (auto simp: z Let_def split: sum.splits)
    from ls obtain sub where
      sub: "walk_dir (os_path_join d i)
              (prefix @ (if p = tee then bar_ext else blank_ext)) [] = Inr sub"
      by (subst (asm) walk_dir_acc) (auto simp: map_sum_def split: sum.splits)
    show ?thesis
    proof (cases "(pointer, item) = (p, i)")
      case same: True
      with True sub show ?thesis by (simp add: child_walk_def)
    next
      case no: False
      with Cons.prems(2) have "(pointer, item) \<in> set zs" by (auto simp: z)
      from Cons.IH [OF rest this] show ?thesis .
    qed
  qed
qed

lemma walk_dir_children:
  assumes "walk_dir d prefix acc = Inr out" and "os_listdir d = Inr names"
    and "i < length (visible_items names)"
  shows "child_walk d prefix (pointer_at (length (visible_items names)) i)
            (visible_items names ! i)
         = Inr (child_lines d prefix (pointer_at (length (visible_items names)) i)
            (visible_items names ! i))"
proof -
  let ?zs = "map (\<lambda>i. (pointer_at (length (visible_items names)) i, visible_items names ! i))
         [0..<length (visible_items names)]"
  from assms(1,2) have "walk_items d prefix ?zs acc = Inr out"
    by (subst (asm) walk_dir.simps) (simp add: Let_def zip_pointers visible_items_def)
  moreover from assms(3)
  have "(pointer_at (length (visible_items names)) i, visible_items names ! i) \<in> set ?zs"
    by auto
  ultimately obtain sub where
    "child_walk d prefix (pointer_at (length (visible_items names)) i)
       (visible_items names ! i) = Inr sub"
    using walk_items_children by blast
  then show ?thesis by (simp add: child_lines_def)
qed

lemma tee_neq_corner: "tee \<noteq> corner"
  by (simp add: tee_def corner_def)

lemma indent_snoc:
  "indent (flags @ [b]) = indent flags @ (if b then bar_ext else blank_ext)"
  by (simp add: indent_def)

lemma walk_dir_rows:
  "walk_dir d (indent flags) acc = Inr out \<Longrightarrow>
     out = acc @ map render_row (spec_rows d flags anc)"
proof (induction "psize d" arbitrary: d flags anc acc out rule: less_induct)
  case less
  show ?case
  proof (cases "os_listdir d")
    case (Inl e)
    with less.prems have "out = acc"
      by (subst (asm) walk_dir.simps) (simp split: if_splits)
    with Inl show ?thesis
      by (subst spec_rows.simps) simp
  next
    case (Inr names)
    let ?items = "visible_items names"
    let ?n = "length ?items"
    let ?blk = "\<lambda>i. (indent flags @ pointer_at ?n i @ ?items ! i)
              # child_lines d (indent flags) (pointer_at ?n i) (?items ! i)"
    let ?rows = "\<lambda>i. Row flags (Suc i = ?n) (anc @ [?items ! i]) #
                (if os_path_isdir (os_path_join d (?items ! i))
                 then spec_rows (os_path_join d (?items ! i))
                        (flags @ [Suc i \<noteq> ?n]) (anc @ [?items ! i])
                 else [])"
    have out: "out = acc @ concat (map ?blk [0..<?n])"
      by (rule walk_dir_blocks [OF less.prems Inr])
    have blk: "?blk i = map render_row (?rows i)" if i: "i < ?n" for i
    proof -
      let ?c = "os_path_join d (?items ! i)"
      have line: "render_row (Row flags (Suc i = ?n) (anc @ [?items ! i]))
                    = indent flags @ pointer_at ?n i @ ?items ! i"
        by (simp add: render_row_def pointer_at_def)
      have cw: "child_walk d (indent flags) (pointer_at ?n i) (?items ! i)
                 = Inr (child_lines d (indent flags) (pointer_at ?n i) (?items ! i))"
        by (rule walk_dir_children [OF less.prems Inr i])
      show ?thesis
      proof (cases "os_path_isdir ?c")
        case False
        then show ?thesis
          by (simp add: line child_lines_def child_walk_def)
      next
        case True
        have ext: "indent flags @ (if pointer_at ?n i = tee then bar_ext else blank_ext)
                     = indent (flags @ [Suc i \<noteq> ?n])"
          using tee_neq_corner by (auto simp: indent_snoc pointer_at_def)
        from cw True have "walk_dir ?c (indent (flags @ [Suc i \<noteq> ?n])) []
            = Inr (child_lines d (indent flags) (pointer_at ?n i) (?items ! i))"
          by (simp add: child_walk_def ext)
        from less.hyps [OF size_child [OF True] this, of "anc @ [?items ! i]"] True
        show ?thesis by (simp add: line)
      qed
    qed
    have e1: "map ?blk [0..<?n] = map (\<lambda>i. map render_row (?rows i)) [0..<?n]"
      by (rule map_cong) (simp_all add: blk)
    have e2: "map render_row (concat (map ?rows [0..<?n]))
                = concat (map (\<lambda>i. map render_row (?rows i)) [0..<?n])"
      by (simp add: map_concat comp_def)
    have e3: "spec_rows d flags anc = concat (map ?rows [0..<?n])"
      using Inr by (subst spec_rows.simps) (simp add: Let_def visible_items_def cong: if_cong)
    show ?thesis
      unfolding out e1 e3 e2 ..
  qed
qed


lemma concat_map_if_filter:
  "concat (map (\<lambda>x. if P x then f x else []) xs) = concat (map f (filter P xs))"
  by (induction xs) auto

lemma mset_concat_map_perm:
  "mset xs = mset ys \<Longrightarrow> mset (concat (map f xs)) = mset (concat (map f ys))"
proof -
  assume "mset xs = mset ys"
  then have "image_mset (\<lambda>x. mset (f x)) (mset xs) = image_mset (\<lambda>x. mset (f x)) (mset ys)"
    by simp
  then have "sum_mset (mset (map (\<lambda>x. mset (f x)) xs)) = sum_mset (mset (map (\<lambda>x. mset (f x)) ys))"
    by simp
  then show ?thesis
    by (simp only: mset_concat sum_mset_sum_list map_map comp_def)
qed

lemma shown_paths_missing:
  "os_listdir d = Inl e \<Longrightarrow> shown_paths d = []"
  unfolding shown_paths_def by (subst reachable.simps) simp

lemma shown_paths_listed:
  assumes "os_listdir d = Inr names"
  shows "shown_paths d =
     concat (map (\<lambda>name. [name] #
               (if os_path_isdir (os_path_join d name)
                then map ((#) name) (shown_paths (os_path_join d name)) else []))
            (filter (\<lambda>item. item \<notin> IGNORE_LIST) names))"
proof -
  let ?vp = "\<lambda>p. \<forall>name\<in>set p. name \<notin> IGNORE_LIST"
  let ?H = "\<lambda>name. [name] #
               (if os_path_isdir (os_path_join d name)
                then map ((#) name) (reachable (os_path_join d name)) else [])"
  let ?H' = "\<lambda>name. [name] #
               (if os_path_isdir (os_path_join d name)
                then map ((#) name) (shown_paths (os_path_join d name)) else [])"
  have r: "reachable d = concat (map ?H names)"
    using assms by (subst reachable.simps) simp
  have f: "filter ?vp (?H name) = (if name \<notin> IGNORE_LIST then ?H' name else [])" for name
    by (auto simp: shown_paths_def filter_map comp_def)
  have "shown_paths d = concat (map (\<lambda>name. filter ?vp (?H name)) names)"
    unfolding shown_paths_def r by (simp add: filter_concat comp_def)
  also have "\<dots> = concat (map (\<lambda>name. if name \<notin> IGNORE_LIST then ?H' name else []) names)"
    by (simp only: f)
  also have "\<dots> = concat (map ?H' (filter (\<lambda>item. item \<notin> IGNORE_LIST) names))"
    by (rule concat_map_if_filter)
  finally show ?thesis .
qed

lemma spec_rows_listed:
  assumes "os_listdir d = Inr names"
  shows "spec_rows d flags anc =
     concat (map (\<lambda>i.
        Row flags (Suc i = length (visible_items names)) (anc @ [visible_items names ! i]) #
        (if os_path_isdir (os_path_join d (visible_items names ! i))
         then spec_rows (os_path_join d (visible_items names ! i))
                (flags @ [Suc i \<noteq> length (visible_items names)])
                (anc @ [visible_items names ! i])
         else []))
      [0..<length (visible_items names)])"
  using assms by (subst spec_rows.simps) (simp add: Let_def visible_items_def cong: if_cong)

lemma spec_rows_missing:
  "os_listdir d = Inl e \<Longrightarrow> spec_rows d flags anc = []"
  by (subst spec_rows.simps) simp

lemma spec_rows_paths:
  "mset (map rpath (spec_rows d flags anc)) = mset (map ((@) anc) (shown_paths d))"
proof (induction "psize d" arbitrary: d flags anc rule: less_induct)
  case less
  show ?case
  proof (cases "os_listdir d")
    case (Inl e)
    then show ?thesis by (simp add: spec_rows_missing shown_paths_missing)
  next
    case (Inr names)
    let ?items = "visible_items names"
    let ?n = "length ?items"
    let ?rows = "\<lambda>i. Row flags (Suc i = ?n) (anc @ [?items ! i]) #
                (if os_path_isdir (os_path_join d (?items ! i))
                 then spec_rows (os_path_join d (?items ! i))
                        (flags @ [Suc i \<noteq> ?n]) (anc @ [?items ! i])
                 else [])"
    let ?H' = "\<lambda>name. [name] #
               (if os_path_isdir (os_path_join d name)
                then map ((#) name) (shown_paths (os_path_join d name)) else [])"
    let ?G = "\<lambda>name. map ((@) anc) (?H' name)"
    have one: "mset (map rpath (?rows i)) = mset (?G (?items ! i))" for i
    proof (cases "os_path_isdir (os_path_join d (?items ! i))")
      case False
      then show ?thesis by simp
    next
      case True
      have app: "(@) (anc @ [?items ! i]) = (\<lambda>p. anc @ ?items ! i # p)"
        by (simp add: fun_eq_iff)
      from less.hyps [OF size_child [OF True], of "flags @ [Suc i \<noteq> ?n]" "anc @ [?items ! i]"]
      show ?thesis using True by (simp add: comp_def app)
    qed
    have "mset (map rpath (spec_rows d flags anc))
            = mset (concat (map (\<lambda>i. map rpath (?rows i)) [0..<?n]))"
      by (simp add: spec_rows_listed [OF Inr] map_concat comp_def)
    also have "\<dots> = (\<Sum>i\<leftarrow>[0..<?n]. mset (map rpath (?rows i)))"
      by (simp only: mset_concat map_map comp_def)
    also have "\<dots> = (\<Sum>i\<leftarrow>[0..<?n]. mset (?G (?items ! i)))"
      by (simp only: one)
    also have "\<dots> = (\<Sum>name\<leftarrow>map ((!) ?items) [0..<?n]. mset (?G name))"
      by (simp only: map_map comp_def)
    also have "\<dots> = (\<Sum>name\<leftarrow>?items. mset (?G name))"
      by (simp only: map_nth)
    also have "\<dots> = mset (concat (map ?G ?items))"
      by (simp only: mset_concat map_map comp_def)
    also have "\<dots> = mset (concat (map ?G (filter (\<lambda>item. item \<notin> IGNORE_LIST) names)))"
      by (rule mset_concat_map_perm) (simp add: visible_items_def)
    also have "\<dots> = mset (map ((@) anc) (shown_paths d))"
      by (simp only: shown_paths_listed [OF Inr] map_concat map_map comp_def)
    finally show ?thesis .
  qed
qed

lemma length_indent: "length (indent flags) = 4 * length flags"
  by (induction flags) (simp_all add: indent_def bar_ext_def blank_ext_def)

lemma indent_block:
  "k < length flags \<Longrightarrow>
     take 4 (drop (4 * k) (indent flags @ rest))
       = (if flags ! k then bar_ext else blank_ext)"
proof (induction flags arbitrary: k)
  case Nil
  then show ?case by simp
next
  case (Cons b flags)
  have split: "indent (b # flags) = (if b then bar_ext else blank_ext) @ indent flags"
    by (simp add: indent_def)
  have len: "length (if b then bar_ext else blank_ext) = 4"
    by (simp add: bar_ext_def blank_ext_def)
  show ?case
  proof (cases k)
    case 0
    then show ?thesis using len by (simp add: split)
  next
    case (Suc j)
    with Cons.prems have j: "j < length flags" by simp
    have "drop (4 * k) (indent (b # flags) @ rest) = drop (4 * j) (indent flags @ rest)"
      using len by (simp add: split Suc)
    with Cons.IH [OF j] show ?thesis by (simp add: Suc)
  qed
qed

lemma spec_rows_mem:
  assumes "row \<in> set (spec_rows d flags anc)"
  obtains names i where "os_listdir d = Inr names" "i < length (visible_items names)"
    and "row = Row flags (Suc i = length (visible_items names)) (anc @ [visible_items names ! i])
         \<or> (os_path_isdir (os_path_join d (visible_items names ! i)) \<and>
            row \<in> set (spec_rows (os_path_join d (visible_items names ! i))
                (flags @ [Suc i \<noteq> length (visible_items names)])
                (anc @ [visible_items names ! i])))"
proof (cases "os_listdir d")
  case (Inl e)
  with assms show ?thesis by (simp add: spec_rows_missing)
next
  case (Inr names)
  from assms obtain i where "i < length (visible_items names)"
    and "row = Row flags (Suc i = length (visible_items names)) (anc @ [visible_items names ! i])
         \<or> (os_path_isdir (os_path_join d (visible_items names ! i)) \<and>
            row \<in> set (spec_rows (os_path_join d (visible_items names ! i))
                (flags @ [Suc i \<noteq> length (visible_items names)])
                (anc @ [visible_items names ! i])))"
    unfolding spec_rows_listed [OF Inr] by (auto split: if_splits)
  with Inr that show ?thesis by blast
qed

lemma spec_rows_own:
  assumes "os_listdir d = Inr names" and "i < length (visible_items names)"
  shows "Row flags (Suc i = length (visible_items names)) (anc @ [visible_items names ! i])
           \<in> set (spec_rows d flags anc)"
  unfolding spec_rows_listed [OF assms(1)] using assms(2) by auto

lemma spec_rows_sub:
  assumes "os_listdir d = Inr names" and "i < length (visible_items names)"
    and "os_path_isdir (os_path_join d (visible_items names ! i))"
  shows "set (spec_rows (os_path_join d (visible_items names ! i))
                (flags @ [Suc i \<noteq> length (visible_items names)])
                (anc @ [visible_items names ! i]))
           \<subseteq> set (spec_rows d flags anc)"
  unfolding spec_rows_listed [OF assms(1)] using assms(2,3) by auto

lemma spec_rows_ancestors:
  assumes "row \<in> set (spec_rows d flags anc)"
  shows "\<exists>rest fl. rpath row = anc @ rest \<and> rest \<noteq> [] \<and>
           ancestors_nonlast row = flags @ fl \<and> length fl = length rest - 1 \<and>
           (\<forall>j<length fl. \<exists>arow\<in>set (spec_rows d flags anc).
               rpath arow = anc @ take (Suc j) rest \<and> fl ! j = (\<not> is_last arow))"
  using assms
proof (induction "psize d" arbitrary: d flags anc rule: less_induct)
  case less
  from less.prems obtain names i where names: "os_listdir d = Inr names"
    and i: "i < length (visible_items names)"
    and alt: "row = Row flags (Suc i = length (visible_items names)) (anc @ [visible_items names ! i])
         \<or> (os_path_isdir (os_path_join d (visible_items names ! i)) \<and>
            row \<in> set (spec_rows (os_path_join d (visible_items names ! i))
                (flags @ [Suc i \<noteq> length (visible_items names)])
                (anc @ [visible_items names ! i])))"
    by (rule spec_rows_mem)
  let ?item = "visible_items names ! i"
  let ?b = "Suc i \<noteq> length (visible_items names)"
  let ?c = "os_path_join d ?item"
  from alt show ?case
  proof
    assume "row = Row flags (Suc i = length (visible_items names)) (anc @ [?item])"
    then have "rpath row = anc @ [?item] \<and> [?item] \<noteq> [] \<and>
           ancestors_nonlast row = flags @ [] \<and> length ([]::bool list) = length [?item] - 1 \<and>
           (\<forall>j<length ([]::bool list). \<exists>arow\<in>set (spec_rows d flags anc).
               rpath arow = anc @ take (Suc j) [?item] \<and> [] ! j = (\<not> is_last arow))"
      by simp
    then show ?thesis by blast
  next
    assume sub: "os_path_isdir ?c \<and> row \<in> set (spec_rows ?c (flags @ [?b]) (anc @ [?item]))"
    then have dir: "os_path_isdir ?c" and mem: "row \<in> set (spec_rows ?c (flags @ [?b]) (anc @ [?item]))"
      by simp_all
    from less.hyps [OF size_child [OF dir] mem]
    obtain rest fl where r: "rpath row = (anc @ [?item]) @ rest" and ne: "rest \<noteq> []"
      and f: "ancestors_nonlast row = (flags @ [?b]) @ fl" and len: "length fl = length rest - 1"
      and anc: "\<forall>j<length fl. \<exists>arow\<in>set (spec_rows ?c (flags @ [?b]) (anc @ [?item])).
               rpath arow = (anc @ [?item]) @ take (Suc j) rest \<and> fl ! j = (\<not> is_last arow)"
      by blast
    have own: "Row flags (Suc i = length (visible_items names)) (anc @ [?item])
                 \<in> set (spec_rows d flags anc)"
      by (rule spec_rows_own [OF names i])
    have incl: "set (spec_rows ?c (flags @ [?b]) (anc @ [?item])) \<subseteq> set (spec_rows d flags anc)"
      by (rule spec_rows_sub [OF names i dir])
    have "\<exists>arow\<in>set (spec_rows d flags anc).
               rpath arow = anc @ take (Suc j) (?item # rest) \<and> (?b # fl) ! j = (\<not> is_last arow)"
      if j: "j < length (?b # fl)" for j
    proof (cases j)
      case 0
      with own show ?thesis by (intro bexI [of _ "Row flags (Suc i = length (visible_items names)) (anc @ [?item])"]) simp_all
    next
      case (Suc j')
      with j have "j' < length fl" by simp
      with anc obtain arow where "arow \<in> set (spec_rows ?c (flags @ [?b]) (anc @ [?item]))"
        and "rpath arow = (anc @ [?item]) @ take (Suc j') rest" and "fl ! j' = (\<not> is_last arow)"
        by blast
      with incl Suc show ?thesis by (intro bexI [of _ arow]) auto
    qed
    moreover have "rpath row = anc @ (?item # rest)" using r by simp
    moreover have "ancestors_nonlast row = flags @ (?b # fl)" using f by simp
    moreover have "length (?b # fl) = length (?item # rest) - 1" using len ne by (cases rest) simp_all
    ultimately show ?thesis by blast
  qed
qed

lemma generate_tree_rows:
  assumes "generate_tree root_dir = Inr out"
  shows "\<exists>absolute. abspath root_dir = Inr absolute \<and>
     out = str_join (py [CHR 0x0A])
       ((os_path_basename absolute @ py ''/'')
          # map render_row (spec_rows (resolved root_dir) [] []))"
proof -
  from assms obtain absolute ls where a: "abspath root_dir = Inr absolute"
    and ls: "walk_dir (resolved root_dir) [] [] = Inr ls"
    and out: "out = str_join (py [CHR 0x0A]) ((os_path_basename absolute @ py ''/'') # ls)"
    by (auto simp: generate_tree_lines split: sum.splits)
  from ls have "walk_dir (resolved root_dir) (indent []) [] = Inr ls"
    by (simp add: indent_def)
  from walk_dir_rows [OF this, of "[]"] a out show ?thesis by simp
qed

lemma spec_rows_paths_root:
  "mset (map rpath (spec_rows d flags [])) = mset (shown_paths d)"
proof -
  have "(@) [] = (\<lambda>p::pystr list. p)"
    by (simp add: fun_eq_iff)
  with spec_rows_paths [of d flags "[]"] show ?thesis
    by simp
qed

subsection \<open>The examples, evaluated\<close>

lemma generate_ignoring_root:
  "generate_tree ignoring_root = Inr (str_join (py [CHR 0x0A])
     [py ''root/'', tee @ py ''.GIT'', tee @ py ''builds'', corner @ py ''src'',
      blank_ext @ corner @ py ''main.py''])"
  by code_simp

lemma rows_ignoring_root:
  "spec_rows (resolved ignoring_root) [] [] =
     [Row [] False [py ''.GIT''], Row [] False [py ''builds''], Row [] True [py ''src''],
      Row [False] True [py ''src'', py ''main.py'']]"
  by code_simp

lemma reachable_ignoring_root:
  "reachable (resolved ignoring_root) =
     [[py ''src''], [py ''src'', py ''main.py''], [py ''src'', py ''dist''],
      [py ''src'', py ''dist'', py ''x.js''], [py ''.git''], [py ''.git'', py ''config''],
      [py ''.GIT''], [py ''builds''], [py ''build''], [py ''build'', py ''out.o'']]"
  by code_simp

lemma reachable_example_root:
  "reachable (Some example_root) =
     [[py ''b.txt''], [py ''a.txt''], [py ''sub''], [py ''sub'', py ''c.txt'']]"
  by code_simp

lemma rows_example_root:
  "spec_rows (Some example_root) [] [] =
     [Row [] False [py ''a.txt''], Row [] False [py ''b.txt''], Row [] True [py ''sub''],
      Row [False] True [py ''sub'', py ''c.txt'']]"
  by code_simp

lemma walk_example_root_header:
  "walk_dir (Some example_root) [] [py ''root/''] =
      Inr [py ''root/'', tee @ py ''a.txt'', tee @ py ''b.txt'', corner @ py ''sub'',
           blank_ext @ corner @ py ''c.txt'']"
  by code_simp

lemma listdir_example_root:
  "os_listdir (Some example_root) = Inr [py ''b.txt'', py ''a.txt'', py ''sub'']"
  by code_simp

lemma items_example_root:
  "sort (filter (\<lambda>item. item \<notin> IGNORE_LIST) [py ''b.txt'', py ''a.txt'', py ''sub''])
     = [py ''a.txt'', py ''b.txt'', py ''sub'']"
  by code_simp

lemma child_walk_example_sub:
  "child_walk (Some example_root) [] corner (py ''sub'') = Inr [blank_ext @ corner @ py ''c.txt'']"
  by code_simp

lemma generate_nested_root:
  "generate_tree nested_root = Inr (str_join (py [CHR 0x0A])
     [py ''root/'', tee @ py ''a'', bar_ext @ tee @ py ''b'',
      bar_ext @ bar_ext @ corner @ py ''c.txt'', bar_ext @ corner @ py ''d.txt'',
      corner @ py ''e.txt''])"
  by code_simp

lemma rows_nested_root:
  "spec_rows (resolved nested_root) [] [] =
     [Row [] False [py ''a''], Row [True] False [py ''a'', py ''b''],
      Row [True, True] True [py ''a'', py ''b'', py ''c.txt''],
      Row [True] True [py ''a'', py ''d.txt''], Row [] True [py ''e.txt'']]"
  by code_simp


lemma walk_example_sub:
  "walk_dir (Some (Dir [(py ''c.txt'', File)])) blank_ext [] = Inr [blank_ext @ corner @ py ''c.txt'']"
  by code_simp

lemma sort_example_names:
  assumes "mset names = mset [py ''b.txt'', py ''a.txt'', py ''sub'']"
  shows "sort (filter (\<lambda>item. item \<notin> IGNORE_LIST) names) = [py ''a.txt'', py ''b.txt'', py ''sub'']"
proof (rule properties_for_sort)
  have "mset (filter (\<lambda>item. item \<notin> IGNORE_LIST) names)
          = filter_mset (\<lambda>item. item \<notin> IGNORE_LIST) (mset [py ''b.txt'', py ''a.txt'', py ''sub''])"
    using assms by simp
  also have "\<dots> = mset [py ''a.txt'', py ''b.txt'', py ''sub'']"
    by (simp add: IGNORE_LIST_def py_def)
  finally show "mset [py ''a.txt'', py ''b.txt'', py ''sub'']
                  = mset (filter (\<lambda>item. item \<notin> IGNORE_LIST) names)"
    by simp
  show "sorted [py ''a.txt'', py ''b.txt'', py ''sub'']"
    by (simp add: py_def)
qed

lemma walk_example_any_order:
  assumes "mset cs = mset [(py ''b.txt'', File), (py ''a.txt'', File),
                           (py ''sub'', Dir [(py ''c.txt'', File)])]"
  shows "walk_dir (Some (Dir cs)) [] [] =
      Inr [tee @ py ''a.txt'', tee @ py ''b.txt'', corner @ py ''sub'',
           blank_ext @ corner @ py ''c.txt'']"
proof -
  let ?d = "Some (Dir cs)"
  from assms have "mset (map fst cs) = mset (map fst [(py ''b.txt'', File), (py ''a.txt'', File),
                           (py ''sub'', Dir [(py ''c.txt'', File)])])"
    by (simp only: mset_map)
  then have names: "mset (map fst cs) = mset [py ''b.txt'', py ''a.txt'', py ''sub'']"
    by simp
  have "distinct [py ''b.txt'', py ''a.txt'', py ''sub'']"
    by (simp add: py_def)
  with names have dist: "distinct (map fst cs)"
    by (metis mset_eq_imp_distinct_iff)
  from assms have set: "set cs = set [(py ''b.txt'', File), (py ''a.txt'', File),
                           (py ''sub'', Dir [(py ''c.txt'', File)])]"
    by (rule mset_eq_setD)
  have ja: "os_path_join ?d (py ''a.txt'') = Some File"
    using dist set by (simp add: os_path_join_def Dir_def map_of_is_SomeI)
  have jb: "os_path_join ?d (py ''b.txt'') = Some File"
    using dist set by (simp add: os_path_join_def Dir_def map_of_is_SomeI)
  have js: "os_path_join ?d (py ''sub'') = Some (Dir [(py ''c.txt'', File)])"
    using dist set by (simp add: os_path_join_def Dir_def map_of_is_SomeI)
  have l: "os_listdir ?d = Inr (map fst cs)"
    by (simp add: os_listdir_def Dir_def)
  have f: "\<not> os_path_isdir (Some File)" and dd: "os_path_isdir (Some (Dir [(py ''c.txt'', File)]))"
    by (simp_all add: os_path_isdir_def File_def Dir_def)
  have sub: "walk_dir (Some (Dir [(py ''c.txt'', File)])) blank_ext acc
               = Inr (acc @ [blank_ext @ corner @ py ''c.txt''])" for acc
    by (subst walk_dir_acc) (simp add: walk_example_sub)
  have z: "zip (list_repeat [tee] (int (length [py ''a.txt'', py ''b.txt'', py ''sub'']) - 1) @ [corner])
              [py ''a.txt'', py ''b.txt'', py ''sub'']
             = [(tee, py ''a.txt''), (tee, py ''b.txt''), (corner, py ''sub'')]"
    unfolding pointers_replicate by simp
  have "walk_dir ?d [] [] = walk_items ?d []
           [(tee, py ''a.txt''), (tee, py ''b.txt''), (corner, py ''sub'')] []"
    by (subst walk_dir.simps) (simp only: l sum.case Let_def sort_example_names [OF names] z)
  also have "\<dots> = Inr [tee @ py ''a.txt'', tee @ py ''b.txt'', corner @ py ''sub'',
           blank_ext @ corner @ py ''c.txt'']"
    using tee_neq_corner by (simp add: ja jb js f dd sub Let_def)
  finally show ?thesis .
qed



section \<open>Properties of the renderer and the driver\<close>

text \<open>
  C2. The root named \<^verbatim>\<open>root\<close> that holds the files \<^verbatim>\<open>b.txt\<close> and \<^verbatim>\<open>a.txt\<close> and
  the directory \<^verbatim>\<open>sub\<close> with the file \<^verbatim>\<open>c.txt\<close> is rendered as the header, the
  two files in sorted order with the branch pointer, \<^verbatim>\<open>sub\<close> with the last-item
  pointer, and \<^verbatim>\<open>c.txt\<close> behind four spaces with the last-item pointer, joined by
  newlines; in whatever order the operating system lists the root, and whatever
  directory the root lies in.
\<close>

theorem generate_tree_example:
  assumes "mset cs = mset [(py ''b.txt'', File), (py ''a.txt'', File),
                           (py ''sub'', Dir [(py ''c.txt'', File)])]"
  shows "generate_tree \<lparr>path_str = s, abspath = Inr (parent @ py ''/root''), resolved = Some (Dir cs)\<rparr>
     = Inr (str_join (py [CHR 0x0A])
         [py ''root/'',
          [0x251C, 0x2500, 0x2500, 0x20] @ py ''a.txt'',
          [0x251C, 0x2500, 0x2500, 0x20] @ py ''b.txt'',
          [0x2514, 0x2500, 0x2500, 0x20] @ py ''sub'',
          py ''    '' @ [0x2514, 0x2500, 0x2500, 0x20] @ py ''c.txt''])"
proof -
  have b: "os_path_basename (parent @ py ''/root'') = py ''root''"
    using basename_slash [of "py ''root''" parent] by (simp add: py_def)
  show ?thesis
    by (simp add: generate_tree_lines b walk_example_any_order [OF assms])
       (simp add: py_def tee_def corner_def blank_ext_def)
qed

theorem generate_tree_example_witness:
  "mset [(py ''sub'', Dir [(py ''c.txt'', File)]), (py ''b.txt'', File), (py ''a.txt'', File)]
     = mset [(py ''b.txt'', File), (py ''a.txt'', File), (py ''sub'', Dir [(py ''c.txt'', File)])] \<and>
   generate_tree \<lparr>path_str = py ''.'', abspath = Inr (py ''/home/u/root''),
       resolved = Some (Dir [(py ''sub'', Dir [(py ''c.txt'', File)]),
                             (py ''b.txt'', File), (py ''a.txt'', File)])\<rparr>
     = Inr (py ''root/'' @ [0x0A] @
            [0x251C, 0x2500, 0x2500, 0x20] @ py ''a.txt'' @ [0x0A] @
            [0x251C, 0x2500, 0x2500, 0x20] @ py ''b.txt'' @ [0x0A] @
            [0x2514, 0x2500, 0x2500, 0x20] @ py ''sub'' @ [0x0A] @
            py ''    '' @ [0x2514, 0x2500, 0x2500, 0x20] @ py ''c.txt'')"
proof -
  have h: "mset [(py ''sub'', Dir [(py ''c.txt'', File)]), (py ''b.txt'', File), (py ''a.txt'', File)]
     = mset [(py ''b.txt'', File), (py ''a.txt'', File), (py ''sub'', Dir [(py ''c.txt'', File)])]"
    by simp
  from generate_tree_example [OF h, of "py ''.''" "py ''/home/u''"]
  have "generate_tree \<lparr>path_str = py ''.'', abspath = Inr (py ''/home/u/root''),
       resolved = Some (Dir [(py ''sub'', Dir [(py ''c.txt'', File)]),
                             (py ''b.txt'', File), (py ''a.txt'', File)])\<rparr>
     = Inr (py ''root/'' @ [0x0A] @
            [0x251C, 0x2500, 0x2500, 0x20] @ py ''a.txt'' @ [0x0A] @
            [0x251C, 0x2500, 0x2500, 0x20] @ py ''b.txt'' @ [0x0A] @
            [0x2514, 0x2500, 0x2500, 0x20] @ py ''sub'' @ [0x0A] @
            py ''    '' @ [0x2514, 0x2500, 0x2500, 0x20] @ py ''c.txt'')"
    by (simp add: py_def)
  with h show ?thesis by (rule conjI)
qed

text \<open>
  C9. A directory whose listing is empty once the ignored names are filtered out adds
  no line and raises nothing: \<^verbatim>\<open>len(items) - 1\<close> is \<open>-1\<close>, the repetition by \<open>-1\<close>
  is the empty list, the pointers are the single last-item pointer, and zipping them
  with no items gives no pass of the loop.
\<close>

theorem walk_dir_empty_listing:
  assumes "os_listdir d = Inr names"
    and "filter (\<lambda>item. item \<notin> IGNORE_LIST) names = []"
  shows "let items = sort (filter (\<lambda>item. item \<notin> IGNORE_LIST) names);
             pointers = list_repeat [tee] (int (length items) - 1) @ [corner]
         in int (length items) - 1 = - 1 \<and> list_repeat [tee] (- 1) = [] \<and>
            pointers = [corner] \<and> zip pointers items = [] \<and>
            walk_dir d prefix tree_lines = Inr tree_lines"
  using assms by (subst walk_dir.simps) (simp add: Let_def list_repeat_def)

theorem walk_dir_empty_listing_witness:
  "os_listdir (Some ignored_only_dir) = Inr [py ''.git'', py ''venv''] \<and>
   filter (\<lambda>item. item \<notin> IGNORE_LIST) [py ''.git'', py ''venv''] = [] \<and>
   walk_dir (Some ignored_only_dir) bar_ext [py ''root/''] = Inr [py ''root/'']"
proof -
  have h1: "os_listdir (Some ignored_only_dir) = Inr [py ''.git'', py ''venv'']"
    by (simp add: os_listdir_def ignored_only_dir_def Dir_def)
  have h2: "filter (\<lambda>item. item \<notin> IGNORE_LIST) [py ''.git'', py ''venv''] = []"
    by (simp add: IGNORE_LIST_def)
  show ?thesis
    using walk_dir_empty_listing [OF h1 h2, of bar_ext "[py ''root/'']"] h1 h2
    by (simp add: Let_def)
qed




text \<open>
  C8. A run that prints the success message has written the file
  \<^verbatim>\<open>project_structure.txt\<close>: its content is the UTF-8 encoding of exactly the text
  that \<open>generate_tree\<close> returned, whatever the file held before, every other file is
  untouched, and the content ends with the encoding of the last tree line, nothing
  after it.
\<close>

theorem main_writes_tree:
  assumes "success_msg \<in> set (drop (length (stdout w)) (stdout (main w)))"
  shows "\<exists>absolute tree_lines bs final.
     abspath (getcwd w) = Inr absolute \<and>
     walk_dir (resolved (getcwd w)) [] [os_path_basename absolute @ py ''/'']
       = Inr tree_lines \<and>
     generate_tree (getcwd w) = Inr (str_join (py [CHR 0x0A]) tree_lines) \<and>
     utf8_encode (str_join (py [CHR 0x0A]) tree_lines) = Some bs \<and>
     files (main w) = (files w)(py ''project_structure.txt'' \<mapsto> bs) \<and>
     tree_lines \<noteq> [] \<and> utf8_encode (last tree_lines) = Some final \<and>
     (\<exists>before. bs = before @ final)"
proof -
  from assms obtain t bs where t: "generate_tree (getcwd w) = Inr t"
    and o: "open_error w = None" and e: "utf8_encode t = Some bs"
    by (auto simp: main_success_iff)
  from t obtain absolute tree_lines where
    a: "abspath (getcwd w) = Inr absolute"
    and w: "walk_dir (resolved (getcwd w)) [] [os_path_basename absolute @ py ''/'']
              = Inr tree_lines"
    and tj: "t = str_join (py [CHR 0x0A]) tree_lines"
    by (auto simp: generate_tree_def split: sum.splits)
  from w have "tree_lines \<noteq> []"
    by (subst (asm) walk_dir_acc) (auto simp: map_sum_def split: sum.splits)
  then obtain pre where pre: "t = pre @ last tree_lines"
    using str_join_last [of tree_lines "py [CHR 0x0A]"] tj by auto
  with e obtain b1 b2 where "utf8_encode (last tree_lines) = Some b2" "bs = b1 @ b2"
    by (auto simp: utf8_encode_append split: option.splits)
  moreover have "files (main w) = (files w)(py ''project_structure.txt'' \<mapsto> bs)"
    by (simp add: main_success [OF t o e] OUTPUT_FILENAME_def)
  ultimately show ?thesis
    using a w t tj e \<open>tree_lines \<noteq> []\<close> by auto
qed

theorem main_writes_tree_witness:
  "success_msg \<in> set (drop (length (stdout example_world)) (stdout (main example_world))) \<and>
   files example_world (py ''project_structure.txt'') = Some [0x6F, 0x6C, 0x64] \<and>
   files (main example_world) (py ''project_structure.txt'') = Some example_bytes \<and>
   files (main example_world) (py ''notes.md'') = Some [0x68, 0x69]"
proof -
  let ?ls = "[py ''root/'',
          [0x251C, 0x2500, 0x2500, 0x20] @ py ''a.txt'',
          [0x251C, 0x2500, 0x2500, 0x20] @ py ''b.txt'',
          [0x2514, 0x2500, 0x2500, 0x20] @ py ''sub'',
          py ''    '' @ [0x2514, 0x2500, 0x2500, 0x20] @ py ''c.txt'']"
  have a: "abspath (getcwd example_world) = Inr (py ''/home/u/root'')"
    by (simp add: example_world_def)
  have w: "walk_dir (resolved (getcwd example_world)) []
             [os_path_basename (py ''/home/u/root'') @ py ''/''] = Inr ?ls"
    by (subst walk_dir_acc)
       (simp add: example_world_def walk_example_root basename_home_root, simp add: py_def)
  have g: "generate_tree (getcwd example_world) = Inr (str_join (py [CHR 0x0A]) ?ls)"
    using a w by (simp add: generate_tree_def)
  have h: "success_msg \<in> set (drop (length (stdout example_world)) (stdout (main example_world)))"
    unfolding main_success_iff using g encode_example by (simp add: example_world_def)
  from main_writes_tree [OF h] a w encode_example
  have "files (main example_world)
          = (files example_world)(py ''project_structure.txt'' \<mapsto> example_bytes)"
    by auto
  with h show ?thesis
    by (simp add: example_world_def OUTPUT_FILENAME_def py_def)
qed




text \<open>
  C3. Whatever \<open>generate_tree\<close> returns, the lines below the header are the rows of
  the entries that are reachable from the root through names none of which is in the
  ignore list, each once: no row has an ignored name anywhere on its path, so neither
  an ignored entry nor anything below it has a line, at any depth. The test is
  membership of the name itself in the set, nothing else.
\<close>

theorem ignored_names_never_rendered:
  assumes "generate_tree root_dir = Inr out"
  shows "(\<exists>absolute. abspath root_dir = Inr absolute \<and>
            out = str_join (py [CHR 0x0A])
              ((os_path_basename absolute @ py ''/'')
                 # map render_row (spec_rows (resolved root_dir) [] []))) \<and>
         (\<forall>row\<in>set (spec_rows (resolved root_dir) [] []).
            \<forall>name\<in>set (rpath row). name \<notin> IGNORE_LIST) \<and>
         mset (map rpath (spec_rows (resolved root_dir) [] []))
           = mset (filter (\<lambda>p. \<forall>name\<in>set p. name \<notin> IGNORE_LIST)
                     (reachable (resolved root_dir)))"
proof -
  have m: "mset (map rpath (spec_rows (resolved root_dir) [] []))
           = mset (filter (\<lambda>p. \<forall>name\<in>set p. name \<notin> IGNORE_LIST)
                     (reachable (resolved root_dir)))"
    using spec_rows_paths_root [of "resolved root_dir" "[]"] by (simp add: shown_paths_def)
  have "\<forall>name\<in>set (rpath row). name \<notin> IGNORE_LIST"
    if "row \<in> set (spec_rows (resolved root_dir) [] [])" for row
  proof -
    from that have "rpath row \<in># mset (map rpath (spec_rows (resolved root_dir) [] []))"
      by simp
    then have "rpath row \<in># mset (filter (\<lambda>p. \<forall>name\<in>set p. name \<notin> IGNORE_LIST)
                     (reachable (resolved root_dir)))"
      by (simp only: m)
    then show ?thesis by simp
  qed
  with m generate_tree_rows [OF assms] show ?thesis by blast
qed

theorem ignored_names_never_rendered_witness:
  "generate_tree ignoring_root = Inr (str_join (py [CHR 0x0A])
     [py ''root/'', tee @ py ''.GIT'', tee @ py ''builds'', corner @ py ''src'',
      blank_ext @ corner @ py ''main.py'']) \<and>
   map rpath (spec_rows (resolved ignoring_root) [] [])
     = [[py ''.GIT''], [py ''builds''], [py ''src''], [py ''src'', py ''main.py'']] \<and>
   mset [[py ''.GIT''], [py ''builds''], [py ''src''], [py ''src'', py ''main.py'']]
     = mset (filter (\<lambda>p. \<forall>name\<in>set p. name \<notin> IGNORE_LIST)
         [[py ''src''], [py ''src'', py ''main.py''], [py ''src'', py ''dist''],
          [py ''src'', py ''dist'', py ''x.js''], [py ''.git''], [py ''.git'', py ''config''],
          [py ''.GIT''], [py ''builds''], [py ''build''], [py ''build'', py ''out.o'']])"
proof -
  note h = generate_ignoring_root
  from ignored_names_never_rendered [OF h]
  have "mset (map rpath (spec_rows (resolved ignoring_root) [] []))
           = mset (filter (\<lambda>p. \<forall>name\<in>set p. name \<notin> IGNORE_LIST)
                     (reachable (resolved ignoring_root)))"
    by blast
  then show ?thesis
    unfolding reachable_ignoring_root rows_ignoring_root using h by simp
qed

text \<open>
  C4. When every directory can be listed and no reachable entry has an ignored name,
  the text that \<open>generate_tree\<close> returns has, below the header, the rows of exactly
  the reachable entries, as multisets of paths: each entry has one line, none is left
  out and none has two.
\<close>

theorem every_entry_rendered_once:
  assumes "generate_tree root_dir = Inr out"
    and "all_listable (resolved root_dir)"
    and "\<forall>p\<in>set (reachable (resolved root_dir)). \<forall>name\<in>set p. name \<notin> IGNORE_LIST"
  shows "(\<exists>absolute. abspath root_dir = Inr absolute \<and>
            out = str_join (py [CHR 0x0A])
              ((os_path_basename absolute @ py ''/'')
                 # map render_row (spec_rows (resolved root_dir) [] []))) \<and>
         mset (map rpath (spec_rows (resolved root_dir) [] []))
           = mset (reachable (resolved root_dir)) \<and>
         length (spec_rows (resolved root_dir) [] []) = length (reachable (resolved root_dir))"
proof -
  from assms(3) have "filter (\<lambda>p. \<forall>name\<in>set p. name \<notin> IGNORE_LIST)
       (reachable (resolved root_dir)) = reachable (resolved root_dir)"
    by (simp add: filter_id_conv)
  with spec_rows_paths_root [of "resolved root_dir" "[]"]
  have m: "mset (map rpath (spec_rows (resolved root_dir) [] []))
           = mset (reachable (resolved root_dir))"
    by (simp add: shown_paths_def)
  from m have "size (mset (map rpath (spec_rows (resolved root_dir) [] [])))
                 = size (mset (reachable (resolved root_dir)))"
    by (rule arg_cong)
  then have "length (spec_rows (resolved root_dir) [] []) = length (reachable (resolved root_dir))"
    by simp
  with m generate_tree_rows [OF assms(1)] show ?thesis by blast
qed

theorem every_entry_rendered_once_witness:
  "generate_tree (getcwd example_world) = Inr (str_join (py [CHR 0x0A])
     [py ''root/'', tee @ py ''a.txt'', tee @ py ''b.txt'', corner @ py ''sub'',
      blank_ext @ corner @ py ''c.txt'']) \<and>
   all_listable (resolved (getcwd example_world)) \<and>
   list_all (list_all (\<lambda>name. name \<notin> IGNORE_LIST)) (reachable (resolved (getcwd example_world))) \<and>
   map rpath (spec_rows (resolved (getcwd example_world)) [] [])
     = [[py ''a.txt''], [py ''b.txt''], [py ''sub''], [py ''sub'', py ''c.txt'']] \<and>
   reachable (resolved (getcwd example_world))
     = [[py ''b.txt''], [py ''a.txt''], [py ''sub''], [py ''sub'', py ''c.txt'']] \<and>
   mset [[py ''a.txt''], [py ''b.txt''], [py ''sub''], [py ''sub'', py ''c.txt'']]
     = mset [[py ''b.txt''], [py ''a.txt''], [py ''sub''], [py ''sub'', py ''c.txt'']]"
proof -
  have r: "resolved (getcwd example_world) = Some example_root"
    by (simp add: example_world_def)
  have h0: "generate_tree (getcwd example_world) = Inr (str_join (py [CHR 0x0A])
     [py ''root/'', tee @ py ''a.txt'', tee @ py ''b.txt'', corner @ py ''sub'',
      blank_ext @ corner @ py ''c.txt''])"
    by code_simp
  have h1: "all_listable (resolved (getcwd example_world))"
    unfolding r by code_simp
  have h2': "list_all (list_all (\<lambda>name. name \<notin> IGNORE_LIST))
               (reachable (resolved (getcwd example_world)))"
    unfolding r reachable_example_root by (simp add: IGNORE_LIST_def py_def)
  then have h2: "\<forall>p\<in>set (reachable (resolved (getcwd example_world))).
                   \<forall>name\<in>set p. name \<notin> IGNORE_LIST"
    by (simp add: list_all_iff)
  from every_entry_rendered_once [OF h0 h1 h2]
  have "mset (map rpath (spec_rows (resolved (getcwd example_world)) [] []))
           = mset (reachable (resolved (getcwd example_world)))"
    by blast
  then have "mset [[py ''a.txt''], [py ''b.txt''], [py ''sub''], [py ''sub'', py ''c.txt'']]
     = mset [[py ''b.txt''], [py ''a.txt''], [py ''sub''], [py ''sub'', py ''c.txt'']]"
    unfolding r reachable_example_root rows_example_root by simp
  moreover have "map rpath (spec_rows (resolved (getcwd example_world)) [] [])
     = [[py ''a.txt''], [py ''b.txt''], [py ''sub''], [py ''sub'', py ''c.txt'']]"
    unfolding r rows_example_root by simp
  moreover have "reachable (resolved (getcwd example_world))
     = [[py ''b.txt''], [py ''a.txt''], [py ''sub''], [py ''sub'', py ''c.txt'']]"
    unfolding r by (rule reachable_example_root)
  ultimately show ?thesis
    using h0 h1 h2' by blast
qed

text \<open>
  C5. For any directory that \<open>walk_dir\<close> visits, with any prefix and any lines
  before it: the names it renders are the filtered names in ascending order, and what
  it appends is, child by child in that order, the line of the child followed at once
  by everything the walk of that child adds, before the line of the next child.
\<close>

theorem siblings_sorted_subtrees_contiguous:
  assumes "walk_dir d prefix acc = Inr out" and "os_listdir d = Inr names"
  shows "let items = sort (filter (\<lambda>item. item \<notin> IGNORE_LIST) names); n = length items
         in sorted items \<and> mset items = mset (filter (\<lambda>item. item \<notin> IGNORE_LIST) names) \<and>
            out = acc @ concat (map (\<lambda>i.
                    (prefix @ pointer_at n i @ items ! i)
                      # child_lines d prefix (pointer_at n i) (items ! i)) [0..<n]) \<and>
            (\<forall>i<n. child_walk d prefix (pointer_at n i) (items ! i)
                      = Inr (child_lines d prefix (pointer_at n i) (items ! i)))"
  using walk_dir_blocks [OF assms] walk_dir_children [OF assms]
  by (simp add: Let_def visible_items_def)

theorem siblings_sorted_subtrees_contiguous_witness:
  "walk_dir (Some example_root) [] [py ''root/''] =
      Inr [py ''root/'', tee @ py ''a.txt'', tee @ py ''b.txt'', corner @ py ''sub'',
           blank_ext @ corner @ py ''c.txt''] \<and>
   os_listdir (Some example_root) = Inr [py ''b.txt'', py ''a.txt'', py ''sub''] \<and>
   sorted [py ''a.txt'', py ''b.txt'', py ''sub''] \<and>
   child_lines (Some example_root) [] corner (py ''sub'') = [blank_ext @ corner @ py ''c.txt'']"
proof -
  note h1 = walk_example_root_header
  note h2 = listdir_example_root
  let ?items = "[py ''a.txt'', py ''b.txt'', py ''sub'']"
  note c = siblings_sorted_subtrees_contiguous [OF h1 h2, unfolded items_example_root Let_def]
  from c have a: "sorted ?items"
    by blast
  from c have b: "\<forall>i<length ?items.
      child_walk (Some example_root) [] (pointer_at (length ?items) i) (?items ! i)
        = Inr (child_lines (Some example_root) [] (pointer_at (length ?items) i) (?items ! i))"
    by blast
  have "2 < length ?items" by simp
  with b have "child_walk (Some example_root) [] (pointer_at (length ?items) 2) (?items ! 2)
        = Inr (child_lines (Some example_root) [] (pointer_at (length ?items) 2) (?items ! 2))"
    by blast
  then have "child_lines (Some example_root) [] corner (py ''sub'')
               = [blank_ext @ corner @ py ''c.txt'']"
    by (simp add: pointer_at_def child_walk_example_sub)
  with h1 h2 a show ?thesis by simp
qed

text \<open>
  C6. For any directory that \<open>walk_dir\<close> visits whose filtered, sorted list is not
  empty: the line of the child at the last position is the prefix, then U+2514 U+2500
  U+2500 and a space, then the name; the line of every other child is the prefix,
  then U+251C U+2500 U+2500 and a space, then the name.
\<close>

theorem last_child_pointer:
  assumes "walk_dir d prefix acc = Inr out" and "os_listdir d = Inr names"
    and "sort (filter (\<lambda>item. item \<notin> IGNORE_LIST) names) \<noteq> []"
  shows "let items = sort (filter (\<lambda>item. item \<notin> IGNORE_LIST) names); n = length items
         in \<exists>blocks. length blocks = n \<and> out = acc @ concat blocks \<and>
              (\<forall>i<n. \<exists>below.
                 blocks ! i =
                   (prefix @ (if i = n - 1 then [0x2514, 0x2500, 0x2500, 0x20]
                              else [0x251C, 0x2500, 0x2500, 0x20]) @ items ! i) # below \<and>
                 child_walk d prefix (pointer_at n i) (items ! i) = Inr below)"
proof -
  let ?items = "visible_items names"
  let ?n = "length ?items"
  let ?blk = "\<lambda>i. (prefix @ pointer_at ?n i @ ?items ! i)
              # child_lines d prefix (pointer_at ?n i) (?items ! i)"
  have ptr: "pointer_at ?n i = (if i = ?n - 1 then [0x2514, 0x2500, 0x2500, 0x20]
                              else [0x251C, 0x2500, 0x2500, 0x20])" if "i < ?n" for i
    using that by (auto simp: pointer_at_def tee_def corner_def)
  have "length (map ?blk [0..<?n]) = ?n" by simp
  moreover have "out = acc @ concat (map ?blk [0..<?n])"
    by (rule walk_dir_blocks [OF assms(1,2)])
  moreover have "\<exists>below. map ?blk [0..<?n] ! i =
                   (prefix @ (if i = ?n - 1 then [0x2514, 0x2500, 0x2500, 0x20]
                              else [0x251C, 0x2500, 0x2500, 0x20]) @ ?items ! i) # below \<and>
                 child_walk d prefix (pointer_at ?n i) (?items ! i) = Inr below"
    if "i < ?n" for i
    using that walk_dir_children [OF assms(1,2) that] ptr [OF that] by simp
  ultimately have "\<exists>blocks. length blocks = ?n \<and> out = acc @ concat blocks \<and>
              (\<forall>i<?n. \<exists>below.
                 blocks ! i =
                   (prefix @ (if i = ?n - 1 then [0x2514, 0x2500, 0x2500, 0x20]
                              else [0x251C, 0x2500, 0x2500, 0x20]) @ ?items ! i) # below \<and>
                 child_walk d prefix (pointer_at ?n i) (?items ! i) = Inr below)"
    by blast
  then show ?thesis
    by (simp add: Let_def visible_items_def)
qed

theorem last_child_pointer_witness:
  "walk_dir (Some example_root) [] [py ''root/''] =
      Inr [py ''root/'', tee @ py ''a.txt'', tee @ py ''b.txt'', corner @ py ''sub'',
           blank_ext @ corner @ py ''c.txt''] \<and>
   os_listdir (Some example_root) = Inr [py ''b.txt'', py ''a.txt'', py ''sub''] \<and>
   sort (filter (\<lambda>item. item \<notin> IGNORE_LIST) [py ''b.txt'', py ''a.txt'', py ''sub'']) \<noteq> [] \<and>
   (\<exists>blocks. length blocks = 3 \<and>
      [py ''root/'', tee @ py ''a.txt'', tee @ py ''b.txt'', corner @ py ''sub'',
           blank_ext @ corner @ py ''c.txt''] = [py ''root/''] @ concat blocks \<and>
      hd (blocks ! 0) = [0x251C, 0x2500, 0x2500, 0x20] @ py ''a.txt'' \<and>
      hd (blocks ! 1) = [0x251C, 0x2500, 0x2500, 0x20] @ py ''b.txt'' \<and>
      blocks ! 2 = [[0x2514, 0x2500, 0x2500, 0x20] @ py ''sub'', blank_ext @ corner @ py ''c.txt''])"
proof -
  note h1 = walk_example_root_header
  note h2 = listdir_example_root
  let ?items = "[py ''a.txt'', py ''b.txt'', py ''sub'']"
  have h3: "sort (filter (\<lambda>item. item \<notin> IGNORE_LIST) [py ''b.txt'', py ''a.txt'', py ''sub'']) \<noteq> []"
    unfolding items_example_root by simp
  note c = last_child_pointer [OF h1 h2 h3, unfolded items_example_root Let_def]
  from c obtain blocks where len: "length blocks = length ?items"
    and out: "[py ''root/'', tee @ py ''a.txt'', tee @ py ''b.txt'', corner @ py ''sub'',
           blank_ext @ corner @ py ''c.txt''] = [py ''root/''] @ concat blocks"
    and each: "\<forall>i<length ?items. \<exists>below.
                 blocks ! i =
                   ([] @ (if i = length ?items - 1 then [0x2514, 0x2500, 0x2500, 0x20]
                              else [0x251C, 0x2500, 0x2500, 0x20]) @ ?items ! i) # below \<and>
                 child_walk (Some example_root) [] (pointer_at (length ?items) i) (?items ! i)
                   = Inr below"
    by blast
  have "0 < length ?items" by simp
  with each have "\<exists>below. blocks ! 0 =
                   ([] @ (if 0 = length ?items - 1 then [0x2514, 0x2500, 0x2500, 0x20]
                              else [0x251C, 0x2500, 0x2500, 0x20]) @ ?items ! 0) # below \<and>
                 child_walk (Some example_root) [] (pointer_at (length ?items) 0) (?items ! 0)
                   = Inr below"
    by blast
  then have b0: "hd (blocks ! 0) = [0x251C, 0x2500, 0x2500, 0x20] @ py ''a.txt''"
    by auto
  have "1 < length ?items" by simp
  with each have "\<exists>below. blocks ! 1 =
                   ([] @ (if 1 = length ?items - 1 then [0x2514, 0x2500, 0x2500, 0x20]
                              else [0x251C, 0x2500, 0x2500, 0x20]) @ ?items ! 1) # below \<and>
                 child_walk (Some example_root) [] (pointer_at (length ?items) 1) (?items ! 1)
                   = Inr below"
    by blast
  then have b1: "hd (blocks ! 1) = [0x251C, 0x2500, 0x2500, 0x20] @ py ''b.txt''"
    by auto
  have "2 < length ?items" by simp
  with each have "\<exists>below. blocks ! 2 =
                   ([] @ (if 2 = length ?items - 1 then [0x2514, 0x2500, 0x2500, 0x20]
                              else [0x251C, 0x2500, 0x2500, 0x20]) @ ?items ! 2) # below \<and>
                 child_walk (Some example_root) [] (pointer_at (length ?items) 2) (?items ! 2)
                   = Inr below"
    by blast
  then have b2: "blocks ! 2 = [[0x2514, 0x2500, 0x2500, 0x20] @ py ''sub'',
                              blank_ext @ corner @ py ''c.txt'']"
    by (auto simp: pointer_at_def child_walk_example_sub)
  from len have "length blocks = 3" by simp
  with out b0 b1 b2 h1 h2 h3 show ?thesis by blast
qed

text \<open>
  C7. Every line below the header is an indentation of four characters for each
  ancestor directory below the root, then a pointer, then the name. The block of four
  for the ancestor at depth \<open>k\<close> is the bar U+2502 with three spaces when that
  ancestor, whose own row is among the rows, was not the last child of its directory,
  and four spaces when it was; so the block begins with the bar exactly in the first
  case.
\<close>

theorem indentation_tracks_ancestors:
  assumes "generate_tree root_dir = Inr out"
  shows "(\<exists>absolute. abspath root_dir = Inr absolute \<and>
            out = str_join (py [CHR 0x0A])
              ((os_path_basename absolute @ py ''/'')
                 # map render_row (spec_rows (resolved root_dir) [] []))) \<and>
         (\<forall>row\<in>set (spec_rows (resolved root_dir) [] []).
            rpath row \<noteq> [] \<and>
            length (ancestors_nonlast row) = length (rpath row) - 1 \<and>
            (\<exists>pointer. render_row row = indent (ancestors_nonlast row) @ pointer @ last (rpath row)
                \<and> length (indent (ancestors_nonlast row)) = 4 * (length (rpath row) - 1)
                \<and> (pointer = [0x251C, 0x2500, 0x2500, 0x20] \<or> pointer = [0x2514, 0x2500, 0x2500, 0x20])) \<and>
            (\<forall>k<length (rpath row) - 1.
               take 4 (drop (4 * k) (render_row row))
                 = (if ancestors_nonlast row ! k then [0x2502, 0x20, 0x20, 0x20]
                    else [0x20, 0x20, 0x20, 0x20]) \<and>
               (render_row row ! (4 * k) = 0x2502 \<longleftrightarrow> ancestors_nonlast row ! k) \<and>
               (\<exists>arow\<in>set (spec_rows (resolved root_dir) [] []).
                  rpath arow = take (Suc k) (rpath row) \<and>
                  ancestors_nonlast row ! k = (\<not> is_last arow))))"
proof (intro conjI ballI)
  show "\<exists>absolute. abspath root_dir = Inr absolute \<and>
            out = str_join (py [CHR 0x0A])
              ((os_path_basename absolute @ py ''/'')
                 # map render_row (spec_rows (resolved root_dir) [] []))"
    by (rule generate_tree_rows [OF assms])
next
  fix row
  assume "row \<in> set (spec_rows (resolved root_dir) [] [])"
  from spec_rows_ancestors [OF this]
  obtain rest fl where r: "rpath row = rest" and ne: "rest \<noteq> []"
    and f: "ancestors_nonlast row = fl" and len: "length fl = length rest - 1"
    and anc: "\<forall>j<length fl. \<exists>arow\<in>set (spec_rows (resolved root_dir) [] []).
               rpath arow = take (Suc j) rest \<and> fl ! j = (\<not> is_last arow)"
    by auto
  show "rpath row \<noteq> []" using r ne by simp
  show "length (ancestors_nonlast row) = length (rpath row) - 1"
    using r f len by simp
  show "\<exists>pointer. render_row row = indent (ancestors_nonlast row) @ pointer @ last (rpath row)
                \<and> length (indent (ancestors_nonlast row)) = 4 * (length (rpath row) - 1)
                \<and> (pointer = [0x251C, 0x2500, 0x2500, 0x20] \<or> pointer = [0x2514, 0x2500, 0x2500, 0x20])"
    using r f len by (auto simp: render_row_def length_indent tee_def corner_def)
  show "\<forall>k<length (rpath row) - 1.
               take 4 (drop (4 * k) (render_row row))
                 = (if ancestors_nonlast row ! k then [0x2502, 0x20, 0x20, 0x20]
                    else [0x20, 0x20, 0x20, 0x20]) \<and>
               (render_row row ! (4 * k) = 0x2502 \<longleftrightarrow> ancestors_nonlast row ! k) \<and>
               (\<exists>arow\<in>set (spec_rows (resolved root_dir) [] []).
                  rpath arow = take (Suc k) (rpath row) \<and>
                  ancestors_nonlast row ! k = (\<not> is_last arow))"
  proof (intro allI impI)
    fix k
    assume "k < length (rpath row) - 1"
    then have k: "k < length fl" using r len by simp
    let ?tailstr = "(if is_last row then corner else tee) @ last (rpath row)"
    have blk: "take 4 (drop (4 * k) (render_row row)) = (if fl ! k then bar_ext else blank_ext)"
      using indent_block [OF k, of ?tailstr] f by (simp add: render_row_def)
    have "4 * k < length (render_row row)"
      using k f by (simp add: render_row_def length_indent)
    then have "render_row row ! (4 * k) = hd (take 4 (drop (4 * k) (render_row row)))"
      by (simp add: hd_drop_conv_nth)
    with blk have hd: "render_row row ! (4 * k) = hd (if fl ! k then bar_ext else blank_ext)"
      by simp
    from anc k obtain arow where "arow \<in> set (spec_rows (resolved root_dir) [] [])"
      "rpath arow = take (Suc k) rest" "fl ! k = (\<not> is_last arow)"
      by blast
    with blk hd r f
    show "take 4 (drop (4 * k) (render_row row))
                 = (if ancestors_nonlast row ! k then [0x2502, 0x20, 0x20, 0x20]
                    else [0x20, 0x20, 0x20, 0x20]) \<and>
               (render_row row ! (4 * k) = 0x2502 \<longleftrightarrow> ancestors_nonlast row ! k) \<and>
               (\<exists>arow\<in>set (spec_rows (resolved root_dir) [] []).
                  rpath arow = take (Suc k) (rpath row) \<and>
                  ancestors_nonlast row ! k = (\<not> is_last arow))"
      by (auto simp: bar_ext_def blank_ext_def)
  qed
qed

theorem indentation_tracks_ancestors_witness:
  "generate_tree nested_root = Inr (str_join (py [CHR 0x0A])
     [py ''root/'', tee @ py ''a'', bar_ext @ tee @ py ''b'',
      bar_ext @ bar_ext @ corner @ py ''c.txt'', bar_ext @ corner @ py ''d.txt'',
      corner @ py ''e.txt'']) \<and>
   Row [True, True] True [py ''a'', py ''b'', py ''c.txt'']
     \<in> set (spec_rows (resolved nested_root) [] []) \<and>
   render_row (Row [True, True] True [py ''a'', py ''b'', py ''c.txt''])
     = bar_ext @ bar_ext @ corner @ py ''c.txt'' \<and>
   take 4 (drop (4 * 1) (render_row (Row [True, True] True [py ''a'', py ''b'', py ''c.txt''])))
     = [0x2502, 0x20, 0x20, 0x20] \<and>
   render_row (Row [True, True] True [py ''a'', py ''b'', py ''c.txt'']) ! (4 * 1) = 0x2502"
proof -
  note h = generate_nested_root
  let ?r = "Row [True, True] True [py ''a'', py ''b'', py ''c.txt'']"
  have mem: "?r \<in> set (spec_rows (resolved nested_root) [] [])"
    unfolding rows_nested_root by simp
  have rr: "render_row ?r = bar_ext @ bar_ext @ corner @ py ''c.txt''"
    by (simp add: render_row_def indent_def)
  from indentation_tracks_ancestors [OF h, THEN conjunct2, THEN bspec, OF mem]
  have "\<forall>k<length (rpath ?r) - 1.
               take 4 (drop (4 * k) (render_row ?r))
                 = (if ancestors_nonlast ?r ! k then [0x2502, 0x20, 0x20, 0x20]
                    else [0x20, 0x20, 0x20, 0x20]) \<and>
               (render_row ?r ! (4 * k) = 0x2502 \<longleftrightarrow> ancestors_nonlast ?r ! k)"
    by blast
  then have "take 4 (drop (4 * 1) (render_row ?r))
                 = (if ancestors_nonlast ?r ! 1 then [0x2502, 0x20, 0x20, 0x20]
                    else [0x20, 0x20, 0x20, 0x20]) \<and>
               (render_row ?r ! (4 * 1) = 0x2502 \<longleftrightarrow> ancestors_nonlast ?r ! 1)"
    by (rule allE [of _ 1]) simp
  then have "take 4 (drop (4 * 1) (render_row ?r)) = [0x2502, 0x20, 0x20, 0x20]"
    and "render_row ?r ! (4 * 1) = 0x2502"
    by simp_all
  with h mem rr show ?thesis by blast
qed

end
